theory Spec2Isabelle
  imports Main "HOL-Library.AList" "HOL-Library.Multiset"
begin

section \<open>JavaScript values and objects\<close>

text \<open>
  The values that reach \<^verbatim>\<open>server.js\<close> from a parsed push payload. A number is
  represented by the text that JavaScript's \<^verbatim>\<open>ToString\<close> gives for it, which is all
  the program ever asks of a number. An object is the list of its own properties
  in insertion order.
\<close>

datatype jsval =
    JUndefined
  | JNull
  | JBool bool
  | JNum string
  | JStr string
  | JArr "jsval list"
  | JObj "(string \<times> jsval) list"

text \<open>
  The object handed to \<^verbatim>\<open>deploy\<close> (lines 156-161). \<^verbatim>\<open>deploy\<close> reads \<^verbatim>\<open>name\<close> and
  \<^verbatim>\<open>path\<close> as strings; \<^verbatim>\<open>repository\<close> and \<^verbatim>\<open>branch\<close> are whatever the payload held.
\<close>

record deployer =
  name :: string
  path :: string
  repository :: jsval
  branch :: jsval

text \<open>
  Property names that every plain object inherits from \<^verbatim>\<open>Object.prototype\<close> in
  V8. The operator \<^verbatim>\<open>in\<close> of line 182 sees them; \<^verbatim>\<open>for ... in\<close> of line 222 does
  not, because they are not enumerable.
\<close>

definition Object_prototype_keys :: "string list" where
  "Object_prototype_keys =
     [''constructor'', ''toString'', ''toLocaleString'', ''valueOf'',
      ''hasOwnProperty'', ''isPrototypeOf'', ''propertyIsEnumerable'',
      ''__defineGetter__'', ''__defineSetter__'', ''__lookupGetter__'',
      ''__lookupSetter__'', ''__proto__'']"

text \<open>\<^verbatim>\<open>k in obj\<close>: an own property of \<^verbatim>\<open>obj\<close> or an inherited one.\<close>

definition js_in :: "string \<Rightarrow> (string \<times> 'v) list \<Rightarrow> bool" where
  "js_in k obj = (k \<in> set (map fst obj) \<or> k \<in> set Object_prototype_keys)"

text \<open>
  The order of \<^verbatim>\<open>for (var k in obj)\<close>: own properties whose name is an array
  index (a canonical decimal numeral below \<open>2\<^sup>3\<^sup>2 - 1\<close>) come first, in ascending
  numeric order; the other own properties follow in insertion order.
\<close>

definition index_value :: "string \<Rightarrow> nat" where
  "index_value s = foldl (\<lambda>n c. 10 * n + (of_char c - 48)) 0 s"

definition is_array_index :: "string \<Rightarrow> bool" where
  "is_array_index s =
     (s \<noteq> [] \<and> (\<forall>c \<in> set s. c \<in> set ''0123456789'') \<and>
      (hd s \<noteq> CHR ''0'' \<or> s = ''0'') \<and> index_value s < 4294967295)"

text \<open>
  Line 222, \<^verbatim>\<open>for (var queuedName in queued) break;\<close>: the first enumerated
  property name, or \<open>None\<close> when the loop body never runs and \<^verbatim>\<open>queuedName\<close>
  stays \<^verbatim>\<open>undefined\<close>.
\<close>

definition first_key :: "(string \<times> 'v) list \<Rightarrow> string option" where
  "first_key obj =
     (let idx = filter is_array_index (map fst obj)
      in if idx \<noteq> [] then Some (arg_min_list index_value idx)
         else (case obj of [] \<Rightarrow> None | (k, _) # _ \<Rightarrow> Some k))"

section \<open>The orchestrator state\<close>

text \<open>
  What the program does to the outside world, in the order it does it: the log
  lines, the shell command of line 195, the loading of the target's definition and
  the calls of its \<^verbatim>\<open>init\<close> and \<^verbatim>\<open>run\<close> (lines 206-208), the end of the process
  (line 238), the probe \<^verbatim>\<open>fs.exists\<close> of line 166 with the deployer its callback
  will hand to \<^verbatim>\<open>deploy\<close>, and the response \<^verbatim>\<open>res.send\<close>.
\<close>

datatype level = Debug | Info | Warn | Error

datatype effect =
    Log level string
  | Exec string
  | RequireFresh string
  | RunnerInit
  | RunnerRun deployer
  | ProcessExit nat
  | FsExists string deployer
  | Send string

text \<open>
  A deployment that has been started and whose last callback has not fired yet:
  either its \<^verbatim>\<open>exec\<close> callback (line 195) or its \<^verbatim>\<open>run\<close> callback (line 208) is
  outstanding.
\<close>

datatype phase = Pulling | Running

text \<open>
  \<^verbatim>\<open>deploying\<close> (line 13) is one object that holds the flag \<^verbatim>\<open>active\<close> and, under
  its own name, every deployer that has been started; \<^verbatim>\<open>queued\<close> (line 14) maps a
  name to the deployer waiting under it. \<open>tasks\<close> are the callbacks the program is
  waiting for, \<open>effects\<close> what it has done so far. \<open>exited\<close> is set once
  \<^verbatim>\<open>process.exit\<close> has been called.
\<close>

record state =
  deploying :: "(string \<times> bool) list"
  queued :: "(string \<times> deployer) list"
  tasks :: "(deployer \<times> phase) list"
  effects :: "effect list"
  exited :: bool

definition init_state :: state where
  "init_state =
     \<lparr>deploying = [(''active'', False)], queued = [], tasks = [], effects = [], exited = False\<rparr>"

text \<open>\<^verbatim>\<open>deploying.active\<close> read as a condition: a missing property is falsy.\<close>

definition active :: "state \<Rightarrow> bool" where
  "active s = (map_of (deploying s) ''active'' = Some True)"

definition emit :: "effect list \<Rightarrow> state \<Rightarrow> state" where
  "emit es s = s\<lparr>effects := effects s @ es\<rparr>"

definition pull_command :: "deployer \<Rightarrow> string" where
  "pull_command d = ''cd \"'' @ path d @ ''\" && git reset --hard HEAD && git pull''"

section \<open>deploy (lines 179-233)\<close>

text \<open>
  The synchronous part of \<^verbatim>\<open>deploy\<close>, lines 182-195: queue the deployer and return,
  or mark it, take the lock and start the pull.

  One name is not covered: for a deployer named \<^verbatim>\<open>__proto__\<close> the assignment of line
  185 replaces the prototype of \<^verbatim>\<open>queued\<close> and adds no entry, and line 222 then
  enumerates the properties of that deployer. Here line 185 stores an entry under
  every name. The push hook cannot build that name (\<open>make_deployer_plain\<close>).
\<close>

definition deploy :: "deployer \<Rightarrow> state \<Rightarrow> state" where
  "deploy d s =
     (if js_in (name d) (deploying s) \<or> active s
      then emit [Log Info (''Queueing '' @ name d)]
             (s\<lparr>queued := AList.update (name d) d (queued s)\<rparr>)
      else emit [Log Info (''Deploying '' @ name d), Exec (pull_command d)]
             (s\<lparr>deploying := AList.update ''active'' True
                                (AList.update (name d) True (deploying s)),
                tasks := tasks s @ [(d, Pulling)]\<rparr>))"

definition drop_nth :: "nat \<Rightarrow> 'a list \<Rightarrow> 'a list" where
  "drop_nth i xs = take i xs @ drop (Suc i) xs"

text \<open>
  How the \<^verbatim>\<open>exec\<close> callback of line 195 can go: \<^verbatim>\<open>err\<close> is not \<^verbatim>\<open>null\<close>; or it is
  \<^verbatim>\<open>null\<close> and lines 206-208 return; or it is \<^verbatim>\<open>null\<close> and one of the three calls
  of lines 206-208 throws, which reaches the handler of line 236: \<^verbatim>\<open>requireFresh\<close>
  (\<open>Loading\<close>), the target's \<^verbatim>\<open>init\<close> (\<open>Initialising\<close>) or the target's \<^verbatim>\<open>run\<close>
  (\<open>Calling\<close>). A call that throws has been made.
\<close>

datatype stage = Loading | Initialising | Calling

datatype pull_result = PullError string | PullOk | PullOkThrows stage string

text \<open>
  The callback of line 195 for the \<open>i\<close>-th outstanding deployment. It can fire only
  while that deployment's pull is outstanding.
\<close>

definition pull_callback :: "nat \<Rightarrow> string \<Rightarrow> pull_result \<Rightarrow> state \<Rightarrow> state option" where
  "pull_callback i stdo res s =
     (if i < length (tasks s) \<and> snd (tasks s ! i) = Pulling then
        (let d = fst (tasks s ! i) in
         case res of
           PullError err \<Rightarrow>
             Some (emit [Log Debug stdo,
                         Log Error (''Git pull error ('' @ name d @ ''): '' @ err)]
                    (s\<lparr>tasks := drop_nth i (tasks s)\<rparr>))
         | PullOk \<Rightarrow>
             Some (emit [Log Debug stdo, RequireFresh (path d @ ''/deploy.js''),
                         RunnerInit, RunnerRun d]
                    (s\<lparr>tasks := (tasks s)[i := (d, Running)]\<rparr>))
         | PullOkThrows st msg \<Rightarrow>
             Some (emit ([Log Debug stdo, RequireFresh (path d @ ''/deploy.js'')]
                         @ (if st = Loading then [] else [RunnerInit])
                         @ (if st = Calling then [RunnerRun d] else [])
                         @ [Log Error (''uncaughtException: '' @ msg), ProcessExit 1])
                    (s\<lparr>tasks := drop_nth i (tasks s), exited := True\<rparr>)))
      else None)"

text \<open>
  Lines 222-229: take the first enumerated name; if it is truthy, remove its entry
  and call \<^verbatim>\<open>deploy\<close> on the deployer stored there. The empty string is falsy.
\<close>

definition run_queued :: "state \<Rightarrow> state" where
  "run_queued s =
     (case first_key (queued s) of
        None \<Rightarrow> s
      | Some queuedName \<Rightarrow>
          if queuedName = [] then s
          else (case map_of (queued s) queuedName of
                  None \<Rightarrow> s
                | Some queuedDeployer \<Rightarrow>
                    deploy queuedDeployer
                      (emit [Log Info (''Running queued job: '' @ queuedName)]
                         (s\<lparr>queued := AList.delete queuedName (queued s)\<rparr>))))"

text \<open>
  The callback of line 208 for the \<open>i\<close>-th outstanding deployment; \<open>err\<close> is \<open>None\<close>
  when the target reports a falsy value, otherwise the text of the error.
\<close>

definition run_callback :: "nat \<Rightarrow> string option \<Rightarrow> state \<Rightarrow> state option" where
  "run_callback i err s =
     (if i < length (tasks s) \<and> snd (tasks s ! i) = Running then
        (let d = fst (tasks s ! i) in
         Some (run_queued
                (emit ((case err of
                          None \<Rightarrow> []
                        | Some e \<Rightarrow> [Log Error (''Error while deploying '' @ name d @ '': '' @ e)])
                       @ [Log Info (''Done deploying '' @ name d)])
                   (s\<lparr>deploying := AList.update ''active'' False
                                      (AList.delete (name d) (deploying s)),
                      tasks := drop_nth i (tasks s)\<rparr>))))
      else None)"

text \<open>
  The callback of \<^verbatim>\<open>fs.exists\<close>, lines 166-171, for a deployer built by the push
  hook.
\<close>

definition exists_callback :: "deployer \<Rightarrow> bool \<Rightarrow> state \<Rightarrow> state" where
  "exists_callback d ex s =
     (let s' = emit [Log Debug (path d @ '' exists: '' @ (if ex then ''true'' else ''false''))] s
      in if \<not> ex then s' else deploy d s')"

section \<open>The event loop\<close>

text \<open>
  The program runs on one thread: each call of \<^verbatim>\<open>deploy\<close> and each callback runs
  to its end before the next one starts. \<open>Submit\<close> is a call of \<^verbatim>\<open>deploy\<close> by a
  scheduled job (line 121), \<open>Probed\<close> the \<^verbatim>\<open>fs.exists\<close> callback of the push hook,
  \<open>PullDone\<close> and \<open>RunDone\<close> the callbacks of an outstanding deployment. A target is
  taken to call the callback of \<^verbatim>\<open>run\<close> once, after \<^verbatim>\<open>run\<close> has returned. \<open>step\<close> is
  \<open>None\<close> for an event that cannot happen: a callback nobody is waiting for, or
  anything after the process has ended.
\<close>

datatype event =
    Submit deployer
  | Probed deployer bool
  | PullDone nat string pull_result
  | RunDone nat "string option"

fun step :: "event \<Rightarrow> state \<Rightarrow> state option" where
  "step (Submit d) s = (if exited s then None else Some (deploy d s))"
| "step (Probed d ex) s = (if exited s then None else Some (exists_callback d ex s))"
| "step (PullDone i stdo res) s = (if exited s then None else pull_callback i stdo res s)"
| "step (RunDone i err) s = (if exited s then None else run_callback i err s)"

fun run :: "event list \<Rightarrow> state \<Rightarrow> state option" where
  "run [] s = Some s"
| "run (e # es) s = (case step e s of None \<Rightarrow> None | Some s' \<Rightarrow> run es s')"

section \<open>A deployment that runs to its end\<close>

text \<open>
  The deployment in progress completes: its pull, if still outstanding, succeeds
  and prints \<open>fst r\<close>, the target's definition loads, and its \<^verbatim>\<open>run\<close> calls back
  with \<open>snd r\<close>. \<open>finishes\<close> lets one deployment after the other complete, with
  no new request in between.
\<close>

definition finish :: "string \<times> string option \<Rightarrow> state \<Rightarrow> state option" where
  "finish r s =
     (case tasks s of
        [] \<Rightarrow> None
      | (d, Pulling) # _ \<Rightarrow> run [PullDone 0 (fst r) PullOk, RunDone 0 (snd r)] s
      | (d, Running) # _ \<Rightarrow> run [RunDone 0 (snd r)] s)"

fun finishes :: "(string \<times> string option) list \<Rightarrow> state \<Rightarrow> state option" where
  "finishes [] s = Some s"
| "finishes (r # rs) s = (case finish r s of None \<Rightarrow> None | Some s' \<Rightarrow> finishes rs s')"

section \<open>routeHookPush (lines 130-174)\<close>

text \<open>
  The exceptions the handler can raise: \<^verbatim>\<open>JSON.parse\<close> on a text that is not JSON,
  and a property read or a method call on a value that has no such property.
\<close>

datatype exn = SyntaxError | TypeError

text \<open>
  \<^verbatim>\<open>v.p\<close> for the property names the handler reads (\<^verbatim>\<open>repository\<close>, \<^verbatim>\<open>name\<close>,
  \<^verbatim>\<open>ref\<close>), none of which is inherited or built in: reading from \<^verbatim>\<open>undefined\<close> or
  \<^verbatim>\<open>null\<close> throws, an object gives its own property, anything else gives
  \<^verbatim>\<open>undefined\<close>.
\<close>

fun js_get :: "jsval \<Rightarrow> string \<Rightarrow> exn + jsval" where
  "js_get JUndefined p = Inl TypeError"
| "js_get JNull p = Inl TypeError"
| "js_get (JObj kvs) p = Inr (case map_of kvs p of None \<Rightarrow> JUndefined | Some v \<Rightarrow> v)"
| "js_get v p = Inr JUndefined"

text \<open>
  \<^verbatim>\<open>s.split(c)\<close> for a separator of one character: the pieces between the
  separators, at least one piece, empty pieces kept.
\<close>

fun split_on :: "char \<Rightarrow> string \<Rightarrow> string list" where
  "split_on c [] = [[]]"
| "split_on c (x # xs) =
     (if x = c then [] # split_on c xs
      else (case split_on c xs of [] \<Rightarrow> [[x]] | w # ws \<Rightarrow> (x # w) # ws))"

text \<open>\<^verbatim>\<open>ref.split("/")\<close>: only a string has the method.\<close>

fun js_split :: "jsval \<Rightarrow> exn + string list" where
  "js_split (JStr s) = Inr (split_on CHR ''/'' s)"
| "js_split v = Inl TypeError"

text \<open>\<^verbatim>\<open>xs.slice(-1)\<close>: the last element, as a list.\<close>

definition slice_last :: "'a list \<Rightarrow> 'a list" where
  "slice_last xs = (if xs = [] then [] else [last xs])"

fun js_join :: "string \<Rightarrow> string list \<Rightarrow> string" where
  "js_join sep [] = []"
| "js_join sep [x] = x"
| "js_join sep (x # y # ys) = x @ sep @ js_join sep (y # ys)"

text \<open>
  The text \<^verbatim>\<open>join\<close> uses for an element: empty for \<^verbatim>\<open>undefined\<close> and \<^verbatim>\<open>null\<close>,
  otherwise the element converted to a string. An array is converted by joining
  its elements with commas. An object parsed from JSON is converted by the
  inherited \<^verbatim>\<open>toString\<close>, unless it has a property \<^verbatim>\<open>toString\<close> of its own: that
  property is not a function, the inherited \<^verbatim>\<open>valueOf\<close> returns the object itself
  and a \<^verbatim>\<open>valueOf\<close> of its own is not a function either, so the conversion throws.
\<close>

fun join_text :: "jsval \<Rightarrow> exn + string"
  and join_texts :: "jsval list \<Rightarrow> exn + string list" where
  "join_text JUndefined = Inr []"
| "join_text JNull = Inr []"
| "join_text (JBool b) = Inr (if b then ''true'' else ''false'')"
| "join_text (JNum s) = Inr s"
| "join_text (JStr s) = Inr s"
| "join_text (JArr xs) =
     (case join_texts xs of Inl e \<Rightarrow> Inl e | Inr ts \<Rightarrow> Inr (js_join '','' ts))"
| "join_text (JObj kvs) =
     (if ''toString'' \<in> set (map fst kvs) then Inl TypeError else Inr ''[object Object]'')"
| "join_texts [] = Inr []"
| "join_texts (x # xs) =
     (case join_text x of
        Inl e \<Rightarrow> Inl e
      | Inr t \<Rightarrow> (case join_texts xs of Inl e \<Rightarrow> Inl e | Inr ts \<Rightarrow> Inr (t # ts)))"

text \<open>
  What the handler reads of \<^verbatim>\<open>req\<close>: the header \<^verbatim>\<open>x-forwarded-for\<close>, the address of
  the connection, and the body's \<^verbatim>\<open>payload\<close>. \<open>payload\<close> is the outcome of
  \<^verbatim>\<open>JSON.parse(req.body.payload)\<close> at line 150: \<open>None\<close> when it throws, otherwise
  the parsed value.
\<close>

record request =
  x_forwarded_for :: "string option"
  remoteAddress :: string
  payload :: "jsval option"

text \<open>Line 133: a missing or empty header is falsy.\<close>

definition source_address :: "request \<Rightarrow> string" where
  "source_address req =
     (case x_forwarded_for req of
        None \<Rightarrow> remoteAddress req
      | Some h \<Rightarrow> if h = [] then remoteAddress req else h)"

text \<open>
  The loop of lines 134-145, over the ranges still to be tried; \<open>True\<close> when line
  143 is reached. \<open>in_range\<close> stands for \<^verbatim>\<open>range_check.in_range\<close>, a library, and is
  taken to return a truth value.
\<close>

fun rejected :: "(string \<Rightarrow> string \<Rightarrow> bool) \<Rightarrow> string \<Rightarrow> string list \<Rightarrow> bool" where
  "rejected in_range ip [] = False"
| "rejected in_range ip (r # rs) =
     (if in_range ip r then False
      else if rs = [] then True
      else rejected in_range ip rs)"

text \<open>
  Lines 151-161; \<open>dirname\<close> is \<^verbatim>\<open>__dirname\<close>. Every exception of these lines is a
  \<^verbatim>\<open>TypeError\<close>: a read from \<^verbatim>\<open>undefined\<close> or \<^verbatim>\<open>null\<close> (line 151), \<^verbatim>\<open>split\<close> on a value
  that is not a string (line 152), or the \<^verbatim>\<open>join\<close> of line 153 on a repository name
  that cannot be converted to a string.
\<close>

definition make_deployer :: "string \<Rightarrow> jsval \<Rightarrow> exn + deployer" where
  "make_deployer dirname p =
     (case js_get p ''repository'' of
        Inl e \<Rightarrow> Inl e
      | Inr rp \<Rightarrow>
     (case js_get rp ''name'' of
        Inl e \<Rightarrow> Inl e
      | Inr repo \<Rightarrow>
     (case js_get p ''ref'' of
        Inl e \<Rightarrow> Inl e
      | Inr ref \<Rightarrow>
     (case js_split ref of
        Inl e \<Rightarrow> Inl e
      | Inr segs \<Rightarrow>
     (case join_text repo of
        Inl e \<Rightarrow> Inl e
      | Inr repo_text \<Rightarrow>
          (let branch = js_join ''-'' (slice_last segs);
               deployerName = js_join ''-'' [repo_text, branch]
           in Inr \<lparr>name = deployerName,
                   path = dirname @ ''/../'' @ deployerName,
                   repository = repo,
                   branch = (case slice_last segs of [] \<Rightarrow> JUndefined | b # _ \<Rightarrow> JStr b)\<rparr>))))))"

text \<open>
  Lines 147-173. The result is what the handler did and, when it ended by an
  exception, the exception; the handler catches nothing. The callback of
  \<^verbatim>\<open>fs.exists\<close> runs later, as the event \<open>Probed\<close>.
\<close>

definition handle_push :: "string \<Rightarrow> request \<Rightarrow> effect list \<times> exn option" where
  "handle_push dirname req =
     (case payload req of
        None \<Rightarrow> ([Log Info ''Received push event''], Some SyntaxError)
      | Some p \<Rightarrow>
          (case make_deployer dirname p of
             Inl e \<Rightarrow> ([Log Info ''Received push event''], Some e)
           | Inr d \<Rightarrow>
               ([Log Info ''Received push event'', Log Debug ''Deployer data'',
                 FsExists (path d @ ''/deploy.js'') d, Send []], None)))"

definition routeHookPush ::
  "(string \<Rightarrow> string \<Rightarrow> bool) \<Rightarrow> string list \<Rightarrow> string \<Rightarrow> request
     \<Rightarrow> effect list \<times> exn option" where
  "routeHookPush in_range githubIpRanges dirname req =
     (let ip = source_address req in
      if rejected in_range ip githubIpRanges
      then ([Log Warn (''Request from non-whitelisted ip: '' @ ip), Send []], None)
      else handle_push dirname req)"

subsection \<open>Containment in a range\<close>

fun decimal :: "string \<Rightarrow> nat option" where
  "decimal s =
     (if s \<noteq> [] \<and> list_all (\<lambda>c. c \<in> set ''0123456789'') s
      then Some (foldl (\<lambda>n c. 10 * n + (of_char c - 48)) 0 s) else None)"

definition parse_ipv4 :: "string \<Rightarrow> nat option" where
  "parse_ipv4 s =
     (case map decimal (split_on CHR ''.'' s) of
        [Some a, Some b, Some c, Some d] \<Rightarrow>
          if a < 256 \<and> b < 256 \<and> c < 256 \<and> d < 256
          then Some (((a * 256 + b) * 256 + c) * 256 + d) else None
      | _ \<Rightarrow> None)"

text \<open>
  Modelled from the spec: \<^verbatim>\<open>range_check.in_range\<close>, a library that is not part of
  the source, as the spec's containment of a source address in a CIDR range, for
  IPv4: the address and the base of the range agree on the leading bits that the
  range's length counts.
\<close>

definition ipv4_in_range :: "string \<Rightarrow> string \<Rightarrow> bool" where
  "ipv4_in_range addr cidr =
     (case split_on CHR ''/'' cidr of
        [base, len] \<Rightarrow>
          (case (parse_ipv4 addr, parse_ipv4 base, decimal len) of
             (Some a, Some b, Some n) \<Rightarrow> n \<le> 32 \<and> a div 2 ^ (32 - n) = b div 2 ^ (32 - n)
           | _ \<Rightarrow> False)
      | _ \<Rightarrow> False)"

section \<open>Predicates on states and sample requests\<close>

text \<open>The deployers whose \<^verbatim>\<open>run\<close> has been called, in the order of the calls.\<close>

fun runs :: "effect list \<Rightarrow> deployer list" where
  "runs [] = []"
| "runs (RunnerRun d # es) = d # runs es"
| "runs (_ # es) = runs es"

text \<open>At most one deployment is outstanding, and the lock is held while one is.\<close>

definition single_flight :: "state \<Rightarrow> bool" where
  "single_flight s = (length (tasks s) \<le> 1 \<and> (tasks s \<noteq> [] \<longrightarrow> active s))"

text \<open>Every queued deployer is stored under its own name, once.\<close>

definition queue_keyed :: "state \<Rightarrow> bool" where
  "queue_keyed s =
     (distinct (map fst (queued s)) \<and> (\<forall>(k, d) \<in> set (queued s). k = name d))"

text \<open>The lock is held although no callback is outstanding that could release it.\<close>

definition stuck :: "state \<Rightarrow> bool" where
  "stuck s = (active s \<and> tasks s = [])"

definition app_main :: deployer where
  "app_main = \<lparr>name = ''app-main'', path = ''/srv/deploy/../app-main'',
                repository = JStr ''app'', branch = JStr ''main''\<rparr>"

definition app_dev :: deployer where
  "app_dev = \<lparr>name = ''app-dev'', path = ''/srv/deploy/../app-dev'',
               repository = JStr ''app'', branch = JStr ''dev''\<rparr>"

text \<open>A second request for the target \<^verbatim>\<open>app-dev\<close>, told apart by its \<^verbatim>\<open>path\<close>.\<close>

definition app_dev_again :: deployer where
  "app_dev_again = \<lparr>name = ''app-dev'', path = ''/srv/deploy2/../app-dev'',
                     repository = JStr ''app'', branch = JStr ''dev''\<rparr>"

text \<open>
  The deployers whose \<^verbatim>\<open>run\<close> is still to be called: the one whose pull is
  outstanding, and those in the queue.
\<close>

definition awaiting :: "state \<Rightarrow> deployer list" where
  "awaiting s = map fst (filter (\<lambda>t. snd t = Pulling) (tasks s)) @ map snd (queued s)"

text \<open>
  A name that is truthy and that \<^verbatim>\<open>in\<close> does not find in \<^verbatim>\<open>deploying\<close> on a fresh
  server: not empty, not \<^verbatim>\<open>active\<close>, not inherited. Every name that line 153
  builds is such a name, because it contains a hyphen.
\<close>

definition plain_name :: "string \<Rightarrow> bool" where
  "plain_name n = (n \<noteq> [] \<and> n \<noteq> ''active'' \<and> n \<notin> set Object_prototype_keys)"

fun plain_event :: "event \<Rightarrow> bool" where
  "plain_event (Submit d) = plain_name (name d)"
| "plain_event (Probed d ex) = plain_name (name d)"
| "plain_event (PullDone i stdo res) = True"
| "plain_event (RunDone i err) = True"

text \<open>
  What holds of the state between two events when every request had a plain name:
  at most one deployment is outstanding, none after the process has ended; the
  queue holds each name once, with its deployer; while a deployment is outstanding
  the lock is held and \<^verbatim>\<open>deploying\<close> holds only \<^verbatim>\<open>active\<close> and its name; while the
  lock is free the queue is empty and \<^verbatim>\<open>deploying\<close> holds only \<^verbatim>\<open>active\<close>.
\<close>

definition orderly :: "state \<Rightarrow> bool" where
  "orderly s =
     (length (tasks s) \<le> 1 \<and>
      (exited s \<longrightarrow> tasks s = []) \<and>
      distinct (map fst (queued s)) \<and>
      (\<forall>(k, d) \<in> set (queued s). k = name d \<and> plain_name k) \<and>
      (\<forall>(d, ph) \<in> set (tasks s). plain_name (name d)) \<and>
      (tasks s \<noteq> [] \<longrightarrow>
         active s \<and>
         fst ` set (deploying s) \<subseteq> insert ''active'' ((name \<circ> fst) ` set (tasks s))) \<and>
      (\<not> active s \<longrightarrow> queued s = [] \<and> fst ` set (deploying s) \<subseteq> {''active''}))"

text \<open>A request under the name of the lock's own flag.\<close>

definition named_active :: deployer where
  "named_active = \<lparr>name = ''active'', path = ''/srv/deploy/../active'',
                    repository = JStr ''active'', branch = JStr ''master''\<rparr>"

fun is_string :: "jsval \<Rightarrow> bool" where
  "is_string (JStr s) = True"
| "is_string v = False"

text \<open>The own property \<open>p\<close> of a value, \<^verbatim>\<open>undefined\<close> when there is none.\<close>

fun property :: "jsval \<Rightarrow> string \<Rightarrow> jsval" where
  "property (JObj kvs) p = (case map_of kvs p of None \<Rightarrow> JUndefined | Some v \<Rightarrow> v)"
| "property v p = JUndefined"

text \<open>
  A value with no text: an object with a property \<^verbatim>\<open>toString\<close> of its own, or an
  array that holds, at any depth, such an object.
\<close>

fun unprintable :: "jsval \<Rightarrow> bool" where
  "unprintable (JObj kvs) = (''toString'' \<in> set (map fst kvs))"
| "unprintable (JArr xs) = (\<exists>x \<in> set xs. unprintable x)"
| "unprintable v = False"

text \<open>
  A payload the handler cannot take a repository name and a ref from: its text is
  not JSON, or the parsed value is \<^verbatim>\<open>null\<close>, or it has no \<^verbatim>\<open>repository\<close>, or its
  \<^verbatim>\<open>ref\<close> is not a string, or the repository's \<^verbatim>\<open>name\<close> has no text.
\<close>

definition malformed :: "jsval option \<Rightarrow> bool" where
  "malformed p =
     (case p of
        None \<Rightarrow> True
      | Some v \<Rightarrow>
          v = JUndefined \<or> v = JNull \<or>
          property v ''repository'' = JUndefined \<or> property v ''repository'' = JNull \<or>
          \<not> is_string (property v ''ref'') \<or>
          unprintable (property (property v ''repository'') ''name''))"

text \<open>A push whose repository name is an object with its own \<^verbatim>\<open>toString\<close>.\<close>

definition odd_name_push :: request where
  "odd_name_push =
     \<lparr>x_forwarded_for = None, remoteAddress = ''192.30.253.7'',
      payload = Some (JObj [(''ref'', JStr ''refs/heads/main''),
                            (''repository'',
                             JObj [(''name'', JObj [(''toString'', JNum ''1'')])])])\<rparr>"

text \<open>A push event as GitHub sends it, from the address \<open>addr\<close>.\<close>

definition push_payload :: "string \<Rightarrow> string \<Rightarrow> jsval" where
  "push_payload repo ref =
     JObj [(''ref'', JStr ref), (''repository'', JObj [(''name'', JStr repo)])]"

definition push :: "string \<Rightarrow> string \<Rightarrow> string \<Rightarrow> request" where
  "push addr repo ref =
     \<lparr>x_forwarded_for = None, remoteAddress = addr, payload = Some (push_payload repo ref)\<rparr>"

definition feature_push :: request where
  "feature_push = push ''192.30.253.7'' ''app'' ''refs/heads/feature/x''"

definition app_x :: deployer where
  "app_x = \<lparr>name = ''app-x'', path = ''/srv/deploy/../app-x'',
             repository = JStr ''app'', branch = JStr ''x''\<rparr>"

text \<open>A request from GitHub's range whose payload is not JSON.\<close>

definition garbled_push :: request where
  "garbled_push =
     \<lparr>x_forwarded_for = None, remoteAddress = ''192.30.253.7'', payload = None\<rparr>"

section \<open>Basic facts\<close>

lemmas model_defs =
  init_state_def deploy_def js_in_def active_def emit_def Object_prototype_keys_def
  pull_callback_def run_callback_def run_queued_def exists_callback_def first_key_def
  is_array_index_def drop_nth_def app_main_def app_dev_def app_dev_again_def Let_def

lemma active_emit [simp]: "active (emit es s) = active s"
  by (simp add: active_def emit_def)

lemma tasks_emit [simp]: "tasks (emit es s) = tasks s"
  by (simp add: emit_def)

lemma queued_emit [simp]: "queued (emit es s) = queued s"
  by (simp add: emit_def)

lemma deploying_emit [simp]: "deploying (emit es s) = deploying s"
  by (simp add: emit_def)

lemma exited_emit [simp]: "exited (emit es s) = exited s"
  by (simp add: emit_def)

lemma effects_emit [simp]: "effects (emit es s) = effects s @ es"
  by (simp add: emit_def)

lemma active_queued_update [simp]: "active (s\<lparr>queued := q\<rparr>) = active s"
  by (simp add: active_def)

lemma active_tasks_update [simp]: "active (s\<lparr>tasks := ts\<rparr>) = active s"
  by (simp add: active_def)

lemma runs_append [simp]: "runs (xs @ ys) = runs xs @ runs ys"
  by (induction xs rule: runs.induct) auto

lemma length_drop_nth: "i < length xs \<Longrightarrow> length (drop_nth i xs) = length xs - 1"
  by (simp add: drop_nth_def)

lemma length_update_ge: "length al \<le> length (AList.update k v al)"
  by (induction al) auto

lemma set_update_subset: "set (AList.update k v al) \<subseteq> insert (k, v) (set al)"
  by (induction al) auto

lemma set_delete_subset: "set (AList.delete k al) \<subseteq> set al"
  by (auto simp: AList.delete_eq)

lemma first_key_None: "first_key q = None \<longleftrightarrow> q = []"
  by (auto simp: first_key_def Let_def split: list.splits)

lemma first_key_in: "first_key q = Some k \<Longrightarrow> k \<in> fst ` set q"
proof -
  assume a: "first_key q = Some k"
  show ?thesis
  proof (cases "filter is_array_index (map fst q) = []")
    case True
    with a show ?thesis
      by (auto simp: first_key_def Let_def split: list.splits)
  next
    case False
    with a have "k = arg_min_list index_value (filter is_array_index (map fst q))"
      by (simp add: first_key_def Let_def)
    with arg_min_list_in [OF False, of index_value]
    have "k \<in> set (filter is_array_index (map fst q))" by simp
    then show ?thesis by auto
  qed
qed

lemma deploy_busy:
  "active s \<Longrightarrow>
     deploy d s = emit [Log Info (''Queueing '' @ name d)]
                    (s\<lparr>queued := AList.update (name d) d (queued s)\<rparr>)"
  by (simp add: deploy_def)

lemma deploy_starts:
  "tasks (deploy d s) \<noteq> tasks s \<Longrightarrow>
     \<not> active s \<and> \<not> js_in (name d) (deploying s) \<and> active (deploy d s) \<and>
     tasks (deploy d s) = tasks s @ [(d, Pulling)]"
  by (auto simp: deploy_def active_def AList.update_conv' split: if_splits)

section \<open>Single flight\<close>

lemma single_flight_init: "single_flight init_state"
  by (simp add: single_flight_def init_state_def)

lemma deploy_single_flight: "single_flight s \<Longrightarrow> single_flight (deploy d s)"
  by (auto simp: single_flight_def deploy_def active_def AList.update_conv')

lemma run_queued_single_flight: "single_flight s \<Longrightarrow> single_flight (run_queued s)"
proof -
  assume s: "single_flight s"
  have "single_flight (emit es (s\<lparr>queued := q\<rparr>))" for es q
    using s by (simp add: single_flight_def active_def)
  with s show ?thesis
    by (auto simp: run_queued_def deploy_single_flight split: option.splits)
qed

lemma step_single_flight:
  assumes "single_flight s" and "step e s = Some s'"
  shows "single_flight s'"
proof (cases e)
  case (Submit d)
  with assms show ?thesis by (auto simp: deploy_single_flight split: if_splits)
next
  case (Probed d ex)
  have "single_flight (emit es s)" for es
    using assms(1) by (simp add: single_flight_def)
  with assms Probed show ?thesis
    by (auto simp: exists_callback_def Let_def deploy_single_flight split: if_splits)
next
  case (PullDone i stdo res)
  with assms show ?thesis
    by (cases res)
       (auto simp: pull_callback_def Let_def single_flight_def active_def length_drop_nth
             split: if_splits)
next
  case (RunDone i err)
  from assms RunDone have i: "i < length (tasks s)"
    by (auto simp: run_callback_def split: if_splits)
  with assms(1) have "drop_nth i (tasks s) = []"
    using length_drop_nth [OF i] by (simp add: single_flight_def)
  then have "single_flight (emit es (s\<lparr>deploying := dp, tasks := drop_nth i (tasks s)\<rparr>))"
    for es dp
    by (simp add: single_flight_def)
  with assms RunDone show ?thesis
    by (auto simp: run_callback_def Let_def run_queued_single_flight split: if_splits)
qed

lemma run_single_flight:
  "single_flight s \<Longrightarrow> run es s = Some s' \<Longrightarrow> single_flight s'"
  by (induction es arbitrary: s) (auto split: option.splits dest: step_single_flight)

text \<open>
  Claim C1. Whatever calls of \<^verbatim>\<open>deploy\<close> and whatever callbacks have happened since
  the program started, at most one deployment is outstanding, and the lock
  \<^verbatim>\<open>deploying.active\<close> is held while one is. A call of \<^verbatim>\<open>deploy\<close> that starts a pull
  found the lock free and leaves it taken.
\<close>

theorem C1_single_flight:
  assumes "run es init_state = Some s"
  shows "length (tasks s) \<le> 1 \<and> (tasks s \<noteq> [] \<longrightarrow> active s) \<and>
         (tasks (deploy d t) \<noteq> tasks t \<longrightarrow>
            \<not> active t \<and> active (deploy d t) \<and>
            tasks (deploy d t) = tasks t @ [(d, Pulling)])"
  using run_single_flight [OF single_flight_init assms] deploy_starts [of d t]
  by (simp add: single_flight_def)

theorem C1_single_flight_witness:
  "run [Submit app_main] init_state = Some (deploy app_main init_state) \<and>
   length (tasks (deploy app_main init_state)) \<le> 1 \<and>
   tasks (deploy app_main init_state) \<noteq> [] \<and>
   active (deploy app_main init_state) \<and>
   tasks (deploy app_main init_state) \<noteq> tasks init_state \<and>
   \<not> active init_state \<and>
   tasks (deploy app_main init_state) = tasks init_state @ [(app_main, Pulling)]"
proof -
  have h: "run [Submit app_main] init_state = Some (deploy app_main init_state)"
    by (simp add: init_state_def)
  have t: "tasks (deploy app_main init_state) \<noteq> tasks init_state"
    by (simp add: model_defs)
  then have t': "tasks (deploy app_main init_state) \<noteq> []"
    by (simp add: init_state_def)
  have i: "tasks init_state = []"
    by (simp add: init_state_def)
  show ?thesis
    using h t t' C1_single_flight [OF h, of app_main init_state] by (simp add: i)
qed

section \<open>One queue entry per name\<close>

lemma queue_keyed_init: "queue_keyed init_state"
  by (simp add: queue_keyed_def init_state_def)

lemma deploy_queue_keyed: "queue_keyed s \<Longrightarrow> queue_keyed (deploy d s)"
  using set_update_subset [of "name d" d "queued s"]
  by (auto simp: queue_keyed_def deploy_def AList.distinct_update)

lemma run_queued_queue_keyed: "queue_keyed s \<Longrightarrow> queue_keyed (run_queued s)"
proof -
  assume s: "queue_keyed s"
  have "queue_keyed (emit es (s\<lparr>queued := AList.delete k (queued s)\<rparr>))" for es k
    using s set_delete_subset [of k "queued s"]
    by (auto simp: queue_keyed_def AList.distinct_delete)
  with s show ?thesis
    by (auto simp: run_queued_def deploy_queue_keyed split: option.splits)
qed

lemma step_queue_keyed:
  assumes "queue_keyed s" and "step e s = Some s'"
  shows "queue_keyed s'"
proof (cases e)
  case (Submit d)
  with assms show ?thesis by (auto simp: deploy_queue_keyed split: if_splits)
next
  case (Probed d ex)
  have "queue_keyed (emit es s)" for es
    using assms(1) by (simp add: queue_keyed_def)
  with assms Probed show ?thesis
    by (auto simp: exists_callback_def Let_def deploy_queue_keyed split: if_splits)
next
  case (PullDone i stdo res)
  with assms show ?thesis
    by (cases res) (auto simp: pull_callback_def Let_def queue_keyed_def split: if_splits)
next
  case (RunDone i err)
  have "queue_keyed (emit es (s\<lparr>deploying := dp, tasks := ts\<rparr>))" for es dp ts
    using assms(1) by (simp add: queue_keyed_def)
  with assms RunDone show ?thesis
    by (auto simp: run_callback_def Let_def run_queued_queue_keyed split: if_splits)
qed

lemma run_queue_keyed: "queue_keyed s \<Longrightarrow> run es s = Some s' \<Longrightarrow> queue_keyed s'"
  by (induction es arbitrary: s) (auto split: option.splits dest: step_queue_keyed)

text \<open>
  Claim C5. While the lock is held and a request is already queued under the name
  of \<open>d\<close>, a call of \<^verbatim>\<open>deploy\<close> with \<open>d\<close> leaves the names in the queue and their order
  as they were, so the queue does not grow and holds each name once; the entry
  under the name of \<open>d\<close> is now \<open>d\<close>, the request submitted last, and every other
  entry is untouched.
\<close>

theorem C5_requeue_replaces:
  assumes "run es init_state = Some s"
      and "active s"
      and "name d \<in> fst ` set (queued s)"
  shows "map fst (queued (deploy d s)) = map fst (queued s) \<and>
         length (queued (deploy d s)) = length (queued s) \<and>
         distinct (map fst (queued (deploy d s))) \<and>
         map_of (queued (deploy d s)) (name d) = Some d \<and>
         (\<forall>k. k \<noteq> name d \<longrightarrow> map_of (queued (deploy d s)) k = map_of (queued s) k)"
proof -
  have q: "queued (deploy d s) = AList.update (name d) d (queued s)"
    using assms(2) by (simp add: deploy_def)
  have keys: "map fst (queued (deploy d s)) = map fst (queued s)"
    using assms(3) by (simp add: q AList.update_keys)
  have "length (map fst (queued (deploy d s))) = length (map fst (queued s))"
    by (simp only: keys)
  then have len: "length (queued (deploy d s)) = length (queued s)"
    by simp
  have "queue_keyed s"
    using run_queue_keyed [OF queue_keyed_init assms(1)] .
  then have dist: "distinct (map fst (queued (deploy d s)))"
    by (simp add: keys queue_keyed_def)
  show ?thesis
    using keys len dist by (simp add: q AList.update_conv')
qed

theorem C5_requeue_replaces_witness:
  "run [Submit app_main, Submit app_dev] init_state
     = Some (deploy app_dev (deploy app_main init_state)) \<and>
   active (deploy app_dev (deploy app_main init_state)) \<and>
   name app_dev_again \<in> fst ` set (queued (deploy app_dev (deploy app_main init_state))) \<and>
   queued (deploy app_dev (deploy app_main init_state)) = [(''app-dev'', app_dev)] \<and>
   length (queued (deploy app_dev_again (deploy app_dev (deploy app_main init_state)))) = 1 \<and>
   map_of (queued (deploy app_dev_again (deploy app_dev (deploy app_main init_state))))
     ''app-dev'' = Some app_dev_again"
proof -
  let ?s = "deploy app_dev (deploy app_main init_state)"
  have h: "run [Submit app_main, Submit app_dev] init_state = Some ?s"
    by (simp add: model_defs)
  have a: "active ?s"
    by (simp add: model_defs)
  have q: "queued ?s = [(''app-dev'', app_dev)]"
    by (simp add: model_defs)
  have nm: "name app_dev_again = ''app-dev''"
    by (simp add: app_dev_again_def)
  have n: "name app_dev_again \<in> fst ` set (queued ?s)"
    by (simp add: q nm)
  from C5_requeue_replaces [OF h a n]
  have "length (queued (deploy app_dev_again ?s)) = 1" 
    and "map_of (queued (deploy app_dev_again ?s)) ''app-dev'' = Some app_dev_again"
    by (simp_all add: q nm)
  with h a n q show ?thesis by simp
qed

section \<open>A failed pull\<close>

lemma deploy_stuck:
  assumes "stuck s"
  shows "stuck (deploy d s) \<and> runs (effects (deploy d s)) = runs (effects s) \<and>
         length (queued s) \<le> length (queued (deploy d s))"
  using assms by (simp add: stuck_def deploy_busy length_update_ge)

lemma emit_stuck: "stuck s \<Longrightarrow> stuck (emit es s)"
  by (simp add: stuck_def)

lemma step_stuck:
  assumes "stuck s" and "step e s = Some s'"
  shows "stuck s' \<and> runs (effects s') = runs (effects s) \<and>
         length (queued s) \<le> length (queued s')"
proof (cases e)
  case (Submit d)
  with assms deploy_stuck [OF assms(1), of d] show ?thesis
    by (auto split: if_splits)
next
  case (Probed d ex)
  let ?s1 = "emit [Log Debug (path d @ '' exists: '' @ (if ex then ''true'' else ''false''))] s"
  have s1: "stuck ?s1" using assms(1) by (rule emit_stuck)
  show ?thesis
  proof (cases ex)
    case True
    with assms Probed have "s' = deploy d ?s1"
      by (auto simp: exists_callback_def Let_def split: if_splits)
    with deploy_stuck [OF s1, of d] show ?thesis by simp
  next
    case False
    with assms Probed have "s' = ?s1"
      by (auto simp: exists_callback_def Let_def split: if_splits)
    with s1 show ?thesis by simp
  qed
next
  case (PullDone i stdo res)
  with assms show ?thesis
    by (auto simp: pull_callback_def stuck_def split: if_splits)
next
  case (RunDone i err)
  with assms show ?thesis
    by (auto simp: run_callback_def stuck_def split: if_splits)
qed

text \<open>
  Once the lock is held with no callback outstanding, it is held for good: no
  sequence of events releases it, starts a deployment or calls \<^verbatim>\<open>run\<close>, and the
  queue only grows.
\<close>

lemma run_stuck:
  "stuck s \<Longrightarrow> run es s = Some s' \<Longrightarrow>
     stuck s' \<and> runs (effects s') = runs (effects s) \<and>
     length (queued s) \<le> length (queued s')"
proof (induction es arbitrary: s)
  case Nil
  then show ?case by simp
next
  case (Cons e es)
  from Cons.prems obtain s1 where s1: "step e s = Some s1" and r: "run es s1 = Some s'"
    by (auto split: option.splits)
  from step_stuck [OF Cons.prems(1) s1] Cons.IH [OF _ r] show ?case
    by auto
qed

text \<open>
  Claim C6. When the callback of the pull reports an error, it logs the output and
  the error and returns: the target's definition is not loaded and its \<^verbatim>\<open>run\<close> is
  not called, the attempt is no longer outstanding, and no later event calls
  \<^verbatim>\<open>run\<close> either.
\<close>

theorem C6_pull_error_skips_run:
  assumes "run es init_state = Some s"
      and "step (PullDone i stdo (PullError err)) s = Some s'"
  shows "effects s' = effects s @
           [Log Debug stdo,
            Log Error (''Git pull error ('' @ name (fst (tasks s ! i)) @ ''): '' @ err)] \<and>
         runs (effects s') = runs (effects s) \<and>
         tasks s' = [] \<and>
         (\<forall>es' s''. run es' s' = Some s'' \<longrightarrow> runs (effects s'') = runs (effects s))"
proof -
  from assms(2) have i: "i < length (tasks s)"
    and s': "s' = emit [Log Debug stdo,
            Log Error (''Git pull error ('' @ name (fst (tasks s ! i)) @ ''): '' @ err)]
              (s\<lparr>tasks := drop_nth i (tasks s)\<rparr>)"
    by (auto simp: pull_callback_def Let_def split: if_splits)
  have sf: "single_flight s"
    using run_single_flight [OF single_flight_init assms(1)] .
  with i have act: "active s" and "length (tasks s) = 1"
    by (auto simp: single_flight_def)
  with i have nil: "drop_nth i (tasks s) = []"
    using length_drop_nth [OF i] by simp
  have st: "stuck s'"
    using act nil by (simp add: s' stuck_def)
  have r: "runs (effects s') = runs (effects s)"
    by (simp add: s')
  show ?thesis
    using run_stuck [OF st] r nil by (simp add: s')
qed

theorem C6_pull_error_skips_run_witness:
  "run [Submit app_main] init_state = Some (deploy app_main init_state) \<and>
   step (PullDone 0 ''out'' (PullError ''exit 1'')) (deploy app_main init_state)
     = Some (emit [Log Debug ''out'', Log Error ''Git pull error (app-main): exit 1'']
               ((deploy app_main init_state)\<lparr>tasks := []\<rparr>)) \<and>
   run [Submit app_dev]
       (emit [Log Debug ''out'', Log Error ''Git pull error (app-main): exit 1'']
               ((deploy app_main init_state)\<lparr>tasks := []\<rparr>))
     = Some (deploy app_dev
           (emit [Log Debug ''out'', Log Error ''Git pull error (app-main): exit 1'']
               ((deploy app_main init_state)\<lparr>tasks := []\<rparr>))) \<and>
   runs (effects (emit [Log Debug ''out'', Log Error ''Git pull error (app-main): exit 1'']
               ((deploy app_main init_state)\<lparr>tasks := []\<rparr>))) = [] \<and>
   runs (effects (deploy app_dev
           (emit [Log Debug ''out'', Log Error ''Git pull error (app-main): exit 1'']
               ((deploy app_main init_state)\<lparr>tasks := []\<rparr>)))) = []"
proof -
  let ?s = "deploy app_main init_state"
  let ?s' = "emit [Log Debug ''out'', Log Error ''Git pull error (app-main): exit 1'']
               (?s\<lparr>tasks := []\<rparr>)"
  have h: "run [Submit app_main] init_state = Some ?s"
    by (simp add: init_state_def)
  have p: "step (PullDone 0 ''out'' (PullError ''exit 1'')) ?s = Some ?s'"
    by (simp add: model_defs)
  have e: "runs (effects ?s) = []"
    by (simp add: model_defs)
  have r: "run [Submit app_dev] ?s' = Some (deploy app_dev ?s')"
    by (simp add: model_defs)
  note c = C6_pull_error_skips_run [OF h p]
  from c have 1: "runs (effects ?s') = runs (effects ?s)"
    by blast
  from c have "\<forall>es' s''. run es' ?s' = Some s'' \<longrightarrow> runs (effects s'') = runs (effects ?s)"
    by blast
  with r have 2: "runs (effects (deploy app_dev ?s')) = runs (effects ?s)"
    by blast
  from h p r 1 2 show ?thesis
    by (simp only: e simp_thms)
qed

text \<open>
  Claim C2, evaluated on the code. A first request is started and its pull fails;
  a second request then arrives. The callback of the failed pull returns at line
  202, before the lines 216-229 that release the lock and run a queued job: the
  lock is still held, \<^verbatim>\<open>app-main\<close> is still marked, no callback is outstanding, and
  the second request sits in the queue.
\<close>

theorem C2_pull_error_keeps_lock:
  "run [Submit app_main, PullDone 0 ''out'' (PullError ''exit 1''), Submit app_dev] init_state =
     Some \<lparr>deploying = [(''active'', True), (''app-main'', True)],
           queued = [(''app-dev'', app_dev)],
           tasks = [],
           effects = [Log Info ''Deploying app-main'', Exec (pull_command app_main),
                      Log Debug ''out'', Log Error ''Git pull error (app-main): exit 1'',
                      Log Info ''Queueing app-dev''],
           exited = False\<rparr>"
  by (simp add: model_defs)

section \<open>The lock and the queue\<close>

lemma orderly_init: "orderly init_state"
  by (simp add: orderly_def init_state_def active_def)

lemma plain_not_in:
  "plain_name n \<Longrightarrow> fst ` set dp \<subseteq> {''active''} \<Longrightarrow> \<not> js_in n dp"
  by (auto simp: plain_name_def js_in_def)

lemma orderly_emit [simp]: "orderly (emit es s) = orderly s"
  by (simp add: orderly_def)

lemma deploy_idle:
  "\<not> active s \<Longrightarrow> \<not> js_in (name d) (deploying s) \<Longrightarrow>
     deploy d s = emit [Log Info (''Deploying '' @ name d), Exec (pull_command d)]
             (s\<lparr>deploying := AList.update ''active'' True
                                (AList.update (name d) True (deploying s)),
                tasks := tasks s @ [(d, Pulling)]\<rparr>)"
  by (simp add: deploy_def)

lemma active_taken [simp]:
  "active (s\<lparr>deploying := AList.update ''active'' True dp\<rparr>)"
  by (simp add: active_def AList.update_conv')

lemma active_released [simp]:
  "\<not> active (s\<lparr>deploying := AList.update ''active'' False dp\<rparr>)"
  by (simp add: active_def AList.update_conv')

lemma deploy_orderly:
  assumes o: "orderly s" and p: "plain_name (name d)" and x: "\<not> exited s"
  shows "orderly (deploy d s)"
proof (cases "active s")
  case True
  have "set (AList.update (name d) d (queued s)) \<subseteq> insert (name d, d) (set (queued s))"
    by (rule set_update_subset)
  with o p True show ?thesis
    by (auto simp: deploy_busy orderly_def AList.distinct_update)
next
  case False
  with o have k: "fst ` set (deploying s) \<subseteq> {''active''}" and q: "queued s = []"
    and t: "tasks s = []"
    by (auto simp: orderly_def)
  from plain_not_in [OF p k] have n: "\<not> js_in (name d) (deploying s)" .
  show ?thesis
    using k q t p x
    by (auto simp: deploy_idle [OF False n] orderly_def AList.dom_update)
qed

lemma first_key_plain:
  assumes "first_key q = Some k" and "\<forall>(k, d) \<in> set q. k = name d \<and> plain_name k"
  shows "k \<noteq> [] \<and> (\<exists>d. map_of q k = Some d \<and> (k, d) \<in> set q \<and> name d = k \<and> plain_name (name d))"
proof -
  from first_key_in [OF assms(1)] obtain d0 where "(k, d0) \<in> set q" by auto
  then obtain d where m: "map_of q k = Some d"
    by (metis weak_map_of_SomeI)
  then have "(k, d) \<in> set q" by (rule map_of_SomeD)
  with assms(2) m show ?thesis by (auto simp: plain_name_def)
qed

text \<open>What lines 222-229 do once lines 216-217 have released the lock.\<close>

lemma run_queued_empty: "queued s = [] \<Longrightarrow> run_queued s = s"
  by (simp add: run_queued_def first_key_def)

lemma run_queued_takes_one:
  assumes a: "\<not> active s" and t: "tasks s = []"
      and k: "fst ` set (deploying s) \<subseteq> {''active''}"
      and q: "\<forall>(k, d) \<in> set (queued s). k = name d \<and> plain_name k"
      and ne: "queued s \<noteq> []"
  shows "\<exists>k d. (k, d) \<in> set (queued s) \<and> k = name d \<and>
           queued (run_queued s) = AList.delete k (queued s) \<and>
           tasks (run_queued s) = [(d, Pulling)] \<and>
           active (run_queued s) \<and>
           fst ` set (deploying (run_queued s)) \<subseteq> {''active'', name d} \<and>
           exited (run_queued s) = exited s \<and>
           effects (run_queued s) = effects s @
             [Log Info (''Running queued job: '' @ k), Log Info (''Deploying '' @ name d),
              Exec (pull_command d)]"
proof -
  from ne obtain k where fk: "first_key (queued s) = Some k"
    by (cases "first_key (queued s)") (auto simp: first_key_None)
  from first_key_plain [OF fk q] obtain d where kne: "k \<noteq> []"
    and m: "map_of (queued s) k = Some d" and mem: "(k, d) \<in> set (queued s)"
    and nm: "name d = k" and pl: "plain_name (name d)"
    by blast
  let ?s1 = "emit [Log Info (''Running queued job: '' @ k)]
               (s\<lparr>queued := AList.delete k (queued s)\<rparr>)"
  have a1: "\<not> active ?s1" using a by simp
  have n1: "\<not> js_in (name d) (deploying ?s1)"
    using plain_not_in [OF pl k] by simp
  have r: "run_queued s = deploy d ?s1"
    using fk kne m by (simp add: run_queued_def)
  also have "\<dots> = emit [Log Info (''Deploying '' @ name d), Exec (pull_command d)]
             (?s1\<lparr>deploying := AList.update ''active'' True
                                (AList.update (name d) True (deploying ?s1)),
                tasks := tasks ?s1 @ [(d, Pulling)]\<rparr>)"
    by (rule deploy_idle [OF a1 n1])
  finally have r': "run_queued s = emit [Log Info (''Deploying '' @ name d), Exec (pull_command d)]
             (?s1\<lparr>deploying := AList.update ''active'' True
                                (AList.update (name d) True (deploying ?s1)),
                tasks := tasks ?s1 @ [(d, Pulling)]\<rparr>)" .
  have 1: "queued (run_queued s) = AList.delete k (queued s)"
    by (simp add: r')
  have 2: "tasks (run_queued s) = [(d, Pulling)]"
    using t by (simp add: r')
  have 3: "active (run_queued s)"
    by (simp add: r')
  have 4: "fst ` set (deploying (run_queued s)) \<subseteq> {''active'', name d}"
    using k by (auto simp: r' AList.dom_update)
  have 5: "exited (run_queued s) = exited s"
    by (simp add: r')
  have 6: "effects (run_queued s) = effects s @
             [Log Info (''Running queued job: '' @ k), Log Info (''Deploying '' @ name d),
              Exec (pull_command d)]"
    by (simp add: r')
  from mem nm 1 2 3 4 5 6 show ?thesis
    by blast
qed

lemma dom_delete: "fst ` set (AList.delete k al) = fst ` set al - {k}"
proof -
  have "set (map fst (AList.delete k al)) = set (removeAll k (map fst al))"
    by (simp only: AList.delete_keys)
  then show ?thesis by simp
qed

lemma run_callback_orderly:
  assumes o: "orderly s" and x: "\<not> exited s" and r: "run_callback i err s = Some s'"
  shows "orderly s'"
proof -
  from r have i: "i < length (tasks s)"
    by (auto simp: run_callback_def split: if_splits)
  with o obtain d ph where ts: "tasks s = [(d, ph)]" and i0: "i = 0"
    by (cases "tasks s") (auto simp: orderly_def)
  let ?s1 = "emit ((case err of None \<Rightarrow> []
                    | Some e \<Rightarrow> [Log Error (''Error while deploying '' @ name d @ '': '' @ e)])
                   @ [Log Info (''Done deploying '' @ name d)])
               (s\<lparr>deploying := AList.update ''active'' False (AList.delete (name d) (deploying s)),
                  tasks := drop_nth i (tasks s)\<rparr>)"
  from r ts i0 have s': "s' = run_queued ?s1"
    by (auto simp: run_callback_def Let_def split: if_splits)
  have a1: "\<not> active ?s1" by simp
  have t1: "tasks ?s1 = []" using ts i0 by (simp add: drop_nth_def)
  have "fst ` set (deploying s) \<subseteq> {''active'', name d}"
    using o ts by (simp add: orderly_def)
  then have k1: "fst ` set (deploying ?s1) \<subseteq> {''active''}"
    by (auto simp: AList.dom_update dom_delete)
  have q1: "\<forall>(k, d) \<in> set (queued ?s1). k = name d \<and> plain_name k"
    using o by (simp add: orderly_def)
  have d1: "distinct (map fst (queued ?s1))"
    using o by (simp add: orderly_def)
  have x1: "\<not> exited ?s1" using x by simp
  show ?thesis
  proof (cases "queued ?s1 = []")
    case True
    then have "s' = ?s1" by (simp add: s' run_queued_empty)
    with a1 t1 k1 True show ?thesis
      by (simp add: orderly_def)
  next
    case False
    from run_queued_takes_one [OF a1 t1 k1 q1 False] obtain k qd where
      mem: "(k, qd) \<in> set (queued ?s1)" and nm: "k = name qd"
      and q': "queued s' = AList.delete k (queued ?s1)"
      and t': "tasks s' = [(qd, Pulling)]"
      and a': "active s'"
      and k': "fst ` set (deploying s') \<subseteq> {''active'', name qd}"
      and x': "exited s' = exited ?s1"
      unfolding s' by blast
    from mem q1 nm have pl: "plain_name (name qd)" by auto
    have sub: "set (AList.delete k (queued ?s1)) \<subseteq> set (queued ?s1)"
      by (rule set_delete_subset)
    show ?thesis
      using q1 d1 x1 pl sub k'
      by (auto simp: orderly_def q' t' a' x' AList.distinct_delete)
  qed
qed

lemma pull_callback_orderly:
  assumes o: "orderly s" and r: "pull_callback i stdo res s = Some s'"
  shows "orderly s'"
proof -
  from r have i: "i < length (tasks s)"
    by (auto simp: pull_callback_def split: if_splits)
  with o obtain d ph where ts: "tasks s = [(d, ph)]" and i0: "i = 0"
    by (cases "tasks s") (auto simp: orderly_def)
  from o ts have a: "active s" by (simp add: orderly_def)
  show ?thesis
    using o r ts i0 a
    by (cases res)
       (auto simp: pull_callback_def Let_def orderly_def drop_nth_def active_def
                   image_subset_iff
             split: if_splits)
qed

lemma step_orderly:
  assumes "orderly s" and "plain_event e" and "step e s = Some s'"
  shows "orderly s'"
proof (cases e)
  case (Submit d)
  with assms show ?thesis by (auto simp: deploy_orderly split: if_splits)
next
  case (Probed d ex)
  with assms show ?thesis
    by (auto simp: exists_callback_def Let_def deploy_orderly split: if_splits)
next
  case (PullDone i stdo res)
  with assms show ?thesis by (auto simp: pull_callback_orderly split: if_splits)
next
  case (RunDone i err)
  with assms show ?thesis by (auto simp: run_callback_orderly split: if_splits)
qed

lemma run_orderly:
  "orderly s \<Longrightarrow> \<forall>e \<in> set es. plain_event e \<Longrightarrow> run es s = Some s' \<Longrightarrow> orderly s'"
proof (induction es arbitrary: s)
  case Nil
  then show ?case by simp
next
  case (Cons e es)
  from Cons.prems obtain s1 where s1: "step e s = Some s1" and r: "run es s1 = Some s'"
    by (auto split: option.splits)
  from Cons.prems have "plain_event e" and rest: "\<forall>e \<in> set es. plain_event e"
    by auto
  from step_orderly [OF Cons.prems(1) this(1) s1] have "orderly s1" .
  from Cons.IH [OF this rest r] show ?case .
qed

text \<open>
  When every request so far had a plain name, as every name built by the push hook
  is, the queue is empty whenever the lock \<^verbatim>\<open>deploying.active\<close> is free.
\<close>

lemma idle_queue_empty_plain:
  assumes "run es init_state = Some s"
      and "\<forall>e \<in> set es. plain_event e"
      and "\<not> active s"
  shows "queued s = []"
  using run_orderly [OF orderly_init assms(2) assms(1)] assms(3)
  by (simp add: orderly_def)

text \<open>
  Claim C3, evaluated on the code. The claim is that the queue is empty whenever
  the lock is free, so that no request stays in the queue while nothing is
  executing and no completion will drain it. Two runs leave a request in the
  queue with nothing outstanding. In the first, \<^verbatim>\<open>deploy\<close> is called on the idle
  server with a deployer named \<^verbatim>\<open>active\<close>: \<^verbatim>\<open>"active" in deploying\<close> holds at line
  182 because the lock's flag lives in the same object, so line 185 stores the
  request although no deployment is in progress and the lock is free. In the
  second, \<^verbatim>\<open>app-main\<close> is started, \<^verbatim>\<open>app-dev\<close> is queued behind it, and the pull of
  \<^verbatim>\<open>app-main\<close> fails: the callback returns at line 202, nothing is outstanding, and
  \<^verbatim>\<open>app-dev\<close> stays in the queue behind a lock that nothing will release.
\<close>

theorem C3_request_left_in_queue:
  "run [Submit named_active] init_state =
     Some \<lparr>deploying = [(''active'', False)],
           queued = [(''active'', named_active)],
           tasks = [],
           effects = [Log Info ''Queueing active''],
           exited = False\<rparr> \<and>
   run [Submit app_main, Submit app_dev, PullDone 0 ''out'' (PullError ''exit 1'')] init_state =
     Some \<lparr>deploying = [(''active'', True), (''app-main'', True)],
           queued = [(''app-dev'', app_dev)],
           tasks = [],
           effects = [Log Info ''Deploying app-main'', Exec (pull_command app_main),
                      Log Info ''Queueing app-dev'', Log Debug ''out'',
                      Log Error ''Git pull error (app-main): exit 1''],
           exited = False\<rparr>"
  by (simp add: model_defs named_active_def)

lemma length_delete:
  "distinct (map fst q) \<Longrightarrow> (k, v) \<in> set q \<Longrightarrow> Suc (length (AList.delete k q)) = length q"
proof (induction q)
  case Nil
  then show ?case by simp
next
  case (Cons p q)
  show ?case
  proof (cases "fst p = k")
    case True
    with Cons.prems have "k \<notin> fst ` set q" by auto
    then have "AList.delete k q = q" by simp
    with True show ?thesis by (cases p) simp
  next
    case False
    with Cons show ?thesis by (cases p) auto
  qed
qed

lemma mset_delete:
  "distinct (map fst q) \<Longrightarrow> (k, v) \<in> set q \<Longrightarrow>
     mset (map snd q) = add_mset v (mset (map snd (AList.delete k q)))"
proof (induction q)
  case Nil
  then show ?case by simp
next
  case (Cons p q)
  show ?case
  proof (cases "fst p = k")
    case True
    with Cons.prems have n: "k \<notin> fst ` set q" by auto
    then have d: "AList.delete k q = q" by simp
    from n Cons.prems True have "p = (k, v)" by (cases p) force
    with d show ?thesis by simp
  next
    case False
    with Cons show ?thesis by (cases p) auto
  qed
qed

lemma run_callback_result:
  assumes o: "orderly s" and ts: "tasks s = [(d0, Running)]"
  shows "\<exists>s1. run_callback 0 err s = Some s1 \<and> orderly s1 \<and>
           runs (effects s1) = runs (effects s) \<and>
           (if queued s = [] then queued s1 = [] \<and> \<not> active s1 \<and> tasks s1 = []
            else \<exists>k d. (k, d) \<in> set (queued s) \<and> queued s1 = AList.delete k (queued s) \<and>
                   tasks s1 = [(d, Pulling)] \<and> active s1)"
proof -
  let ?s1 = "emit ((case err of None \<Rightarrow> []
                    | Some e \<Rightarrow> [Log Error (''Error while deploying '' @ name d0 @ '': '' @ e)])
                   @ [Log Info (''Done deploying '' @ name d0)])
               (s\<lparr>deploying := AList.update ''active'' False (AList.delete (name d0) (deploying s)),
                  tasks := drop_nth 0 (tasks s)\<rparr>)"
  from o ts have x: "\<not> exited s" by (auto simp: orderly_def)
  have r: "run_callback 0 err s = Some (run_queued ?s1)"
    using ts by (simp add: run_callback_def)
  have os: "orderly (run_queued ?s1)"
    using run_callback_orderly [OF o x r] .
  have e1: "runs (effects ?s1) = runs (effects s)"
    by (cases err) simp_all
  have a1: "\<not> active ?s1" by simp
  have t1: "tasks ?s1 = []" using ts by (simp add: drop_nth_def)
  have "fst ` set (deploying s) \<subseteq> {''active'', name d0}"
    using o ts by (simp add: orderly_def)
  then have k1: "fst ` set (deploying ?s1) \<subseteq> {''active''}"
    by (auto simp: AList.dom_update dom_delete)
  have q1: "\<forall>(k, d) \<in> set (queued ?s1). k = name d \<and> plain_name k"
    using o by (simp add: orderly_def)
  show ?thesis
  proof (cases "queued s = []")
    case True
    then have "run_queued ?s1 = ?s1" by (simp add: run_queued_empty)
    with r os e1 a1 t1 True show ?thesis by simp
  next
    case False
    then have ne: "queued ?s1 \<noteq> []" by simp
    from run_queued_takes_one [OF a1 t1 k1 q1 ne] obtain k qd where
      mem: "(k, qd) \<in> set (queued ?s1)"
      and q': "queued (run_queued ?s1) = AList.delete k (queued ?s1)"
      and t': "tasks (run_queued ?s1) = [(qd, Pulling)]"
      and a': "active (run_queued ?s1)"
      and e': "effects (run_queued ?s1) = effects ?s1 @
             [Log Info (''Running queued job: '' @ k), Log Info (''Deploying '' @ name qd),
              Exec (pull_command qd)]"
      by blast
    have "runs (effects (run_queued ?s1)) = runs (effects ?s1)"
      by (simp only: e' runs_append) simp
    with e1 have e2: "runs (effects (run_queued ?s1)) = runs (effects s)" by simp
    from mem have mem': "(k, qd) \<in> set (queued s)" by simp
    from q' have q'': "queued (run_queued ?s1) = AList.delete k (queued s)" by simp
    from False r os e2 mem' q'' t' a' show ?thesis
      by auto
  qed
qed

lemma finish_result:
  assumes o: "orderly s" and ts: "tasks s \<noteq> []"
  shows "\<exists>s1. finish r s = Some s1 \<and> orderly s1 \<and>
           runs (effects s1) =
             runs (effects s) @ map fst (filter (\<lambda>t. snd t = Pulling) (tasks s)) \<and>
           (if queued s = [] then queued s1 = [] \<and> \<not> active s1 \<and> tasks s1 = []
            else \<exists>k d. (k, d) \<in> set (queued s) \<and> queued s1 = AList.delete k (queued s) \<and>
                   tasks s1 = [(d, Pulling)] \<and> active s1)"
proof -
  from o ts obtain d0 ph where t: "tasks s = [(d0, ph)]"
    by (cases "tasks s") (auto simp: orderly_def)
  from o t have x: "\<not> exited s" by (auto simp: orderly_def)
  show ?thesis
  proof (cases ph)
    case Running
    with t x have f: "finish r s = run_callback 0 (snd r) s"
      by (simp add: finish_def split: option.splits)
    from run_callback_result [OF o t [unfolded Running], of "snd r"] t Running
    show ?thesis by (simp add: f)
  next
    case Pulling
    let ?sa = "emit [Log Debug (fst r), RequireFresh (path d0 @ ''/deploy.js''),
                     RunnerInit, RunnerRun d0] (s\<lparr>tasks := [(d0, Running)]\<rparr>)"
    have p: "pull_callback 0 (fst r) PullOk s = Some ?sa"
      using t Pulling by (simp add: pull_callback_def)
    have oa: "orderly ?sa" using pull_callback_orderly [OF o p] .
    have ta: "tasks ?sa = [(d0, Running)]" by simp
    have xa: "\<not> exited ?sa" using x by simp
    have f: "finish r s = run_callback 0 (snd r) ?sa"
      using t Pulling x p xa by (simp add: finish_def split: option.splits)
    have ea: "runs (effects ?sa) = runs (effects s) @ [d0]" by simp
    have qa: "queued ?sa = queued s" by simp
    from run_callback_result [OF oa ta, of "snd r"]
    show ?thesis
      unfolding f ea qa using t Pulling by simp
  qed
qed

lemma finishes_drains:
  assumes "orderly s" and "tasks s \<noteq> []" and "length rs = Suc (length (queued s))"
  shows "\<exists>s'. finishes rs s = Some s' \<and> queued s' = [] \<and> \<not> active s' \<and> tasks s' = [] \<and>
           mset (runs (effects s')) = mset (runs (effects s)) + mset (awaiting s)"
  using assms
proof (induction rs arbitrary: s)
  case Nil
  then show ?case by simp
next
  case (Cons r rs)
  from finish_result [OF Cons.prems(1,2), of r] obtain s1 where
    f: "finish r s = Some s1" and o1: "orderly s1"
    and e1: "runs (effects s1) =
             runs (effects s) @ map fst (filter (\<lambda>t. snd t = Pulling) (tasks s))"
    and c: "if queued s = [] then queued s1 = [] \<and> \<not> active s1 \<and> tasks s1 = []
            else \<exists>k d. (k, d) \<in> set (queued s) \<and> queued s1 = AList.delete k (queued s) \<and>
                   tasks s1 = [(d, Pulling)] \<and> active s1"
    by blast
  show ?case
  proof (cases "queued s = []")
    case True
    with Cons.prems(3) have "rs = []" by simp
    with f c True e1 show ?thesis by (simp add: awaiting_def)
  next
    case False
    with c obtain k d where mem: "(k, d) \<in> set (queued s)"
      and q1: "queued s1 = AList.delete k (queued s)"
      and t1: "tasks s1 = [(d, Pulling)]"
      by auto
    from Cons.prems(1) have dist: "distinct (map fst (queued s))"
      by (simp add: orderly_def)
    from length_delete [OF dist mem] Cons.prems(3) have l: "length rs = Suc (length (queued s1))"
      by (simp add: q1)
    have ne: "tasks s1 \<noteq> []" by (simp add: t1)
    from Cons.IH [OF o1 ne l] obtain s' where
      fs: "finishes rs s1 = Some s'" and r: "queued s' = []" "\<not> active s'" "tasks s' = []"
      and m: "mset (runs (effects s')) = mset (runs (effects s1)) + mset (awaiting s1)"
      by blast
    have "mset (awaiting s1) = add_mset d (mset (map snd (AList.delete k (queued s))))"
      by (simp add: awaiting_def t1 q1)
    also have "\<dots> = mset (map snd (queued s))"
      using mset_delete [OF dist mem] by simp
    finally have "mset (runs (effects s')) = mset (runs (effects s)) + mset (awaiting s)"
      using m e1 by (simp add: awaiting_def)
    with f fs r show ?thesis by simp
  qed
qed

text \<open>
  What the queue does while pulls succeed. Let every request so far have had a
  plain name, let a deployment be in progress and \<open>N\<close> requests be queued. If the
  queue is not empty, the completion of the deployment in progress removes exactly
  one entry from the queue and starts the pull of the deployer stored there, with
  the lock held. When the deployment in progress and then each deployment started
  from the queue completes with a successful pull, \<open>N + 1\<close> completions in all, the
  queue is empty, the lock is free, nothing is outstanding, and \<^verbatim>\<open>run\<close> has been
  called once more for each deployer that was waiting.
\<close>

lemma drain_exhaustive_when_pulls_succeed:
  assumes "run es init_state = Some s"
      and "\<forall>e \<in> set es. plain_event e"
      and "tasks s \<noteq> []"
      and "length rs = Suc (length (queued s))"
  shows "(queued s \<noteq> [] \<longrightarrow>
            (\<exists>k d s1. finish r s = Some s1 \<and> (k, d) \<in> set (queued s) \<and>
               queued s1 = AList.delete k (queued s) \<and>
               Suc (length (queued s1)) = length (queued s) \<and>
               tasks s1 = [(d, Pulling)] \<and> active s1)) \<and>
         (\<exists>s'. finishes rs s = Some s' \<and> queued s' = [] \<and> \<not> active s' \<and> tasks s' = [] \<and>
            mset (runs (effects s')) = mset (runs (effects s)) + mset (awaiting s))"
proof -
  have o: "orderly s"
    using run_orderly [OF orderly_init assms(2) assms(1)] .
  have one: "\<exists>k d s1. finish r s = Some s1 \<and> (k, d) \<in> set (queued s) \<and>
               queued s1 = AList.delete k (queued s) \<and>
               Suc (length (queued s1)) = length (queued s) \<and>
               tasks s1 = [(d, Pulling)] \<and> active s1" if ne: "queued s \<noteq> []"
  proof -
    from finish_result [OF o assms(3), of r] ne obtain s1 k d where
      f: "finish r s = Some s1" and mem: "(k, d) \<in> set (queued s)"
      and q1: "queued s1 = AList.delete k (queued s)"
      and t1: "tasks s1 = [(d, Pulling)]" "active s1"
      by auto
    from o have dist: "distinct (map fst (queued s))"
      by (simp add: orderly_def)
    from length_delete [OF dist mem] have "Suc (length (queued s1)) = length (queued s)"
      by (simp add: q1)
    with f mem q1 t1 show ?thesis by blast
  qed
  from one finishes_drains [OF o assms(3,4)] show ?thesis by blast
qed

text \<open>
  Claim C4, evaluated on the code. \<^verbatim>\<open>app-main\<close> is started and two requests,
  \<^verbatim>\<open>app-dev\<close> and \<^verbatim>\<open>app-x\<close>, are queued while it is busy. \<^verbatim>\<open>app-main\<close> completes, which
  takes \<^verbatim>\<open>app-dev\<close> from the queue and starts it. The pull of \<^verbatim>\<open>app-dev\<close> fails: its
  callback returns at line 202 without the lines 216-229 that release the lock and
  take the next entry. The lock is held with nothing outstanding, \<^verbatim>\<open>app-x\<close> is still
  queued, and \<^verbatim>\<open>run\<close> has been called for \<^verbatim>\<open>app-main\<close> only; by \<open>run_stuck\<close> no later
  event changes that.
\<close>

theorem C4_drain_stops_at_failed_pull:
  "run [Submit app_main, Submit app_dev, Submit app_x,
        PullDone 0 ''out'' PullOk, RunDone 0 None,
        PullDone 0 ''out'' (PullError ''exit 1'')] init_state =
     Some \<lparr>deploying = [(''active'', True), (''app-dev'', True)],
           queued = [(''app-x'', app_x)],
           tasks = [],
           effects = [Log Info ''Deploying app-main'', Exec (pull_command app_main),
                      Log Info ''Queueing app-dev'', Log Info ''Queueing app-x'',
                      Log Debug ''out'', RequireFresh ''/srv/deploy/../app-main/deploy.js'',
                      RunnerInit, RunnerRun app_main, Log Info ''Done deploying app-main'',
                      Log Info ''Running queued job: app-dev'', Log Info ''Deploying app-dev'',
                      Exec (pull_command app_dev), Log Debug ''out'',
                      Log Error ''Git pull error (app-dev): exit 1''],
           exited = False\<rparr>"
  by (simp add: model_defs app_x_def)

section \<open>The push hook\<close>

lemma split_on_nonempty: "split_on c s \<noteq> []"
  by (induction s) (auto split: list.splits)

lemma split_on_no_sep: "w \<in> set (split_on c s) \<Longrightarrow> c \<notin> set w"
  by (induction s arbitrary: w) (auto split: if_splits list.splits)

lemma last_split_no_sep: "c \<notin> set (last (split_on c s))"
  using split_on_no_sep [of "last (split_on c s)" c s] split_on_nonempty [of c s]
  by simp

lemma make_deployer_string_ref:
  assumes "js_get p ''repository'' = Inr rp"
      and "js_get rp ''name'' = Inr repo"
      and "join_text repo = Inr repo_text"
      and "js_get p ''ref'' = Inr (JStr r)"
  shows "make_deployer dirname p =
           Inr \<lparr>name = repo_text @ ''-'' @ last (split_on CHR ''/'' r),
                path = dirname @ ''/../'' @ repo_text @ ''-'' @ last (split_on CHR ''/'' r),
                repository = repo,
                branch = JStr (last (split_on CHR ''/'' r))\<rparr>"
  using assms split_on_nonempty [of "CHR ''/''" r]
  by (simp add: make_deployer_def slice_last_def Let_def)

text \<open>The names that line 153 builds contain a hyphen, so they are plain.\<close>

lemma hyphen_plain: "CHR ''-'' \<in> set n \<Longrightarrow> plain_name n"
  by (auto simp: plain_name_def Object_prototype_keys_def)

lemma make_deployer_plain: "make_deployer dirname p = Inr d \<Longrightarrow> plain_name (name d)"
proof -
  assume "make_deployer dirname p = Inr d"
  then obtain repo_text slug where "name d = js_join ''-'' [repo_text, slug]"
    by (auto simp: make_deployer_def Let_def split: sum.splits)
  then show ?thesis by (simp add: hyphen_plain)
qed

text \<open>
  Claim C7, amended. For a payload whose \<^verbatim>\<open>ref\<close> is a string and whose repository
  name has a text (as every string has), the \<^verbatim>\<open>branch\<close> of the deployer is the last
  of the pieces of the ref between its slashes, and the same piece is the slug in
  \<^verbatim>\<open>name\<close>, which is the text of the repository's name, a hyphen and the slug; the
  slug contains no slash. So the ref \<^verbatim>\<open>refs/heads/feature/x\<close> gives the branch \<^verbatim>\<open>x\<close>
  and, for the repository \<^verbatim>\<open>app\<close>, the name \<^verbatim>\<open>app-x\<close>.
\<close>

theorem C7_branch_is_last_segment:
  assumes "js_get p ''repository'' = Inr rp"
      and "js_get rp ''name'' = Inr repo"
      and "join_text repo = Inr repo_text"
      and "js_get p ''ref'' = Inr (JStr r)"
  shows "make_deployer dirname p =
           Inr \<lparr>name = repo_text @ ''-'' @ last (split_on CHR ''/'' r),
                path = dirname @ ''/../'' @ repo_text @ ''-'' @ last (split_on CHR ''/'' r),
                repository = repo,
                branch = JStr (last (split_on CHR ''/'' r))\<rparr> \<and>
         CHR ''/'' \<notin> set (last (split_on CHR ''/'' r))"
  using make_deployer_string_ref [OF assms] last_split_no_sep by simp

theorem C7_branch_is_last_segment_witness:
  "js_get (push_payload ''app'' ''refs/heads/feature/x'') ''repository'' = Inr (JObj [(''name'', JStr ''app'')]) \<and>
   js_get (JObj [(''name'', JStr ''app'')]) ''name'' = Inr (JStr ''app'') \<and>
   join_text (JStr ''app'') = Inr ''app'' \<and>
   js_get (push_payload ''app'' ''refs/heads/feature/x'') ''ref'' = Inr (JStr ''refs/heads/feature/x'') \<and>
   make_deployer ''/srv/deploy'' (push_payload ''app'' ''refs/heads/feature/x'') = Inr app_x \<and>
   CHR ''/'' \<notin> set ''x''"
proof -
  have 1: "js_get (push_payload ''app'' ''refs/heads/feature/x'') ''repository'' = Inr (JObj [(''name'', JStr ''app'')])"
    by (simp add: push_payload_def)
  have 2: "js_get (JObj [(''name'', JStr ''app'')]) ''name'' = Inr (JStr ''app'')"
    by simp
  have 3: "js_get (push_payload ''app'' ''refs/heads/feature/x'') ''ref'' = Inr (JStr ''refs/heads/feature/x'')"
    by (simp add: push_payload_def)
  have 4: "join_text (JStr ''app'') = Inr ''app''"
    by simp
  have l: "last (split_on CHR ''/'' ''refs/heads/feature/x'') = ''x''"
    by simp
  from C7_branch_is_last_segment [OF 1 2 4 3, of "''/srv/deploy''"] 1 2 3
  show ?thesis
    by (simp add: l app_x_def)
qed

text \<open>
  Claim C7 as stated fails: for the ref \<^verbatim>\<open>refs/heads/feature/x\<close> the handler
  derives the branch \<^verbatim>\<open>x\<close>, not \<^verbatim>\<open>feature/x\<close>.
\<close>

theorem C7_counterexample:
  "routeHookPush ipv4_in_range [''192.30.252.0/22''] ''/srv/deploy'' feature_push =
     ([Log Info ''Received push event'', Log Debug ''Deployer data'',
       FsExists ''/srv/deploy/../app-x/deploy.js'' app_x, Send []], None) \<and>
   branch app_x = JStr ''x'' \<and>
   branch app_x \<noteq> JStr ''feature/x''"
proof -
  have "ipv4_in_range ''192.30.253.7'' ''192.30.252.0/22''"
    by (simp add: ipv4_in_range_def parse_ipv4_def)
  then show ?thesis
    by (simp add: routeHookPush_def handle_push_def make_deployer_def push_def
          source_address_def slice_last_def Let_def feature_push_def app_x_def
          push_payload_def)
qed

lemma js_get_property:
  "v \<noteq> JUndefined \<Longrightarrow> v \<noteq> JNull \<Longrightarrow> js_get v p = Inr (property v p)"
  by (cases v) simp_all

lemma js_split_string: "is_string v \<Longrightarrow> \<exists>segs. js_split v = Inr segs"
  by (cases v) simp_all

lemma js_split_other: "\<not> is_string v \<Longrightarrow> js_split v = Inl TypeError"
  by (cases v) simp_all

lemma js_get_throws: "v = JUndefined \<or> v = JNull \<Longrightarrow> js_get v p = Inl TypeError"
  by auto

text \<open>A value has a text exactly when it is not unprintable.\<close>

lemma join_text_unprintable:
  "(unprintable v \<longrightarrow> join_text v = Inl TypeError) \<and>
   (\<not> unprintable v \<longrightarrow> (\<exists>t. join_text v = Inr t))"
  "((\<exists>x \<in> set vs. unprintable x) \<longrightarrow> join_texts vs = Inl TypeError) \<and>
   (\<not> (\<exists>x \<in> set vs. unprintable x) \<longrightarrow> (\<exists>ts. join_texts vs = Inr ts))"
  by (induction v and vs rule: join_text_join_texts.induct) (auto split: sum.splits)

lemma join_text_throws: "unprintable v \<Longrightarrow> join_text v = Inl TypeError"
  using join_text_unprintable(1) [of v] by simp

lemma join_text_returns: "\<not> unprintable v \<Longrightarrow> \<exists>t. join_text v = Inr t"
  using join_text_unprintable(1) [of v] by simp

lemma make_deployer_throws:
  "malformed (Some v) \<Longrightarrow> make_deployer dirname v = Inl TypeError"
proof -
  assume m: "malformed (Some v)"
  show ?thesis
  proof (cases "v = JUndefined \<or> v = JNull")
    case True
    then show ?thesis by (auto simp: make_deployer_def)
  next
    case False
    then have g: "\<And>p. js_get v p = Inr (property v p)"
      by (simp add: js_get_property)
    show ?thesis
    proof (cases "property v ''repository'' = JUndefined \<or> property v ''repository'' = JNull")
      case True
      then show ?thesis by (auto simp: make_deployer_def g)
    next
      case r: False
      then have g2: "js_get (property v ''repository'') ''name''
                       = Inr (property (property v ''repository'') ''name'')"
        by (simp add: js_get_property)
      show ?thesis
      proof (cases "is_string (property v ''ref'')")
        case False
        then show ?thesis
          by (simp add: make_deployer_def g g2 js_split_other)
      next
        case True
        with m \<open>\<not> (v = JUndefined \<or> v = JNull)\<close> r
        have "unprintable (property (property v ''repository'') ''name'')"
          by (simp add: malformed_def)
        from join_text_throws [OF this] js_split_string [OF True] show ?thesis
          by (auto simp: make_deployer_def g g2)
      qed
    qed
  qed
qed

lemma make_deployer_returns:
  "\<not> malformed (Some v) \<Longrightarrow> \<exists>d. make_deployer dirname v = Inr d"
proof -
  assume m: "\<not> malformed (Some v)"
  then have v: "v \<noteq> JUndefined" "v \<noteq> JNull"
    and r: "property v ''repository'' \<noteq> JUndefined" "property v ''repository'' \<noteq> JNull"
    and s: "is_string (property v ''ref'')"
    and u: "\<not> unprintable (property (property v ''repository'') ''name'')"
    by (auto simp: malformed_def)
  from js_split_string [OF s] obtain segs where "js_split (property v ''ref'') = Inr segs" ..
  moreover from join_text_returns [OF u] obtain t where
    "join_text (property (property v ''repository'') ''name'') = Inr t" ..
  ultimately show ?thesis
    by (simp add: make_deployer_def js_get_property [OF v] js_get_property [OF r] Let_def)
qed

lemma github_address: "ipv4_in_range ''192.30.253.7'' ''192.30.252.0/22''"
  by (simp add: ipv4_in_range_def parse_ipv4_def)

text \<open>
  Claim C8, amended. For a request that passes the address check: if the payload
  is malformed (its text is not JSON, or it has no \<^verbatim>\<open>repository\<close>, or its \<^verbatim>\<open>ref\<close> is
  not a string, or the repository's name has no text), the handler logs that a
  push event was received and then ends by an exception at lines 150-153, before
  it probes for the target and before it sends the response of line 173; it calls
  neither \<^verbatim>\<open>fs.exists\<close> nor \<^verbatim>\<open>res.send\<close>. If the payload is not malformed, the handler
  probes for the target and sends the empty response.
\<close>

theorem C8_malformed_payload_throws:
  assumes "\<not> rejected in_range (source_address req) githubIpRanges"
  shows "(malformed (payload req) \<longrightarrow>
            (\<exists>e. routeHookPush in_range githubIpRanges dirname req
                   = ([Log Info ''Received push event''], Some e))) \<and>
         (\<not> malformed (payload req) \<longrightarrow>
            (\<exists>d. routeHookPush in_range githubIpRanges dirname req
                   = ([Log Info ''Received push event'', Log Debug ''Deployer data'',
                       FsExists (path d @ ''/deploy.js'') d, Send []], None)))"
proof (cases "payload req")
  case None
  with assms show ?thesis
    by (simp add: routeHookPush_def handle_push_def malformed_def)
next
  case (Some v)
  show ?thesis
  proof (cases "malformed (Some v)")
    case True
    with assms Some make_deployer_throws [OF True, of dirname] show ?thesis
      by (simp add: routeHookPush_def handle_push_def)
  next
    case False
    from make_deployer_returns [OF False, of dirname] obtain d where
      "make_deployer dirname v = Inr d" ..
    with assms Some False show ?thesis
      by (simp add: routeHookPush_def handle_push_def)
  qed
qed

theorem C8_malformed_payload_throws_witness:
  "\<not> rejected ipv4_in_range (source_address garbled_push) [''192.30.252.0/22''] \<and>
   malformed (payload garbled_push) \<and>
   (\<exists>e. routeHookPush ipv4_in_range [''192.30.252.0/22''] ''/srv/deploy'' garbled_push
           = ([Log Info ''Received push event''], Some e)) \<and>
   \<not> rejected ipv4_in_range (source_address feature_push) [''192.30.252.0/22''] \<and>
   \<not> malformed (payload feature_push) \<and>
   (\<exists>d. routeHookPush ipv4_in_range [''192.30.252.0/22''] ''/srv/deploy'' feature_push
           = ([Log Info ''Received push event'', Log Debug ''Deployer data'',
               FsExists (path d @ ''/deploy.js'') d, Send []], None))"
proof -
  have a: "\<not> rejected ipv4_in_range (source_address garbled_push) [''192.30.252.0/22'']"
    by (simp add: garbled_push_def source_address_def github_address)
  have m: "malformed (payload garbled_push)"
    by (simp add: garbled_push_def malformed_def)
  have a': "\<not> rejected ipv4_in_range (source_address feature_push) [''192.30.252.0/22'']"
    by (simp add: feature_push_def push_def source_address_def github_address)
  have m': "\<not> malformed (payload feature_push)"
    by (simp add: feature_push_def push_def push_payload_def malformed_def)
  from C8_malformed_payload_throws [OF a, of "''/srv/deploy''"] m
  have 1: "\<exists>e. routeHookPush ipv4_in_range [''192.30.252.0/22''] ''/srv/deploy'' garbled_push
           = ([Log Info ''Received push event''], Some e)"
    by blast
  from C8_malformed_payload_throws [OF a', of "''/srv/deploy''"] m'
  have 2: "\<exists>d. routeHookPush ipv4_in_range [''192.30.252.0/22''] ''/srv/deploy'' feature_push
           = ([Log Info ''Received push event'', Log Debug ''Deployer data'',
               FsExists (path d @ ''/deploy.js'') d, Send []], None)"
    by blast
  from a m 1 a' m' 2 show ?thesis by blast
qed

text \<open>
  A repository name that is an object with a \<^verbatim>\<open>toString\<close> of its own makes the
  \<^verbatim>\<open>join\<close> of line 153 throw.
\<close>

lemma odd_name_push_throws:
  "malformed (payload odd_name_push) \<and>
   routeHookPush ipv4_in_range [''192.30.252.0/22''] ''/srv/deploy'' odd_name_push
     = ([Log Info ''Received push event''], Some TypeError)"
  by (simp add: routeHookPush_def handle_push_def make_deployer_def odd_name_push_def
        source_address_def malformed_def github_address)

text \<open>
  Claim C8 as stated fails: for a payload that is not JSON, from an address in
  GitHub's range, the handler ends by the exception of \<^verbatim>\<open>JSON.parse\<close> and sends no
  response.
\<close>

theorem C8_counterexample:
  "routeHookPush ipv4_in_range [''192.30.252.0/22''] ''/srv/deploy'' garbled_push
     = ([Log Info ''Received push event''], Some SyntaxError) \<and>
   Send [] \<notin> set (fst (routeHookPush ipv4_in_range [''192.30.252.0/22''] ''/srv/deploy''
                          garbled_push))"
  by (simp add: routeHookPush_def handle_push_def garbled_push_def source_address_def
        github_address)

lemma rejected_iff:
  "githubIpRanges \<noteq> [] \<Longrightarrow>
     rejected in_range ip githubIpRanges = (\<forall>r \<in> set githubIpRanges. \<not> in_range ip r)"
  by (induction githubIpRanges) auto

text \<open>
  Claim C9, amended. When the allow-list is not empty, the address check rejects
  an address exactly when no range of the list contains it; the handler then logs
  a warning, sends the empty response and does nothing else, and otherwise goes on
  to the payload. With the allow-list \<^verbatim>\<open>["10.0.0.0/8"]\<close> the address \<^verbatim>\<open>203.0.113.5\<close>
  is rejected and the address \<^verbatim>\<open>10.1.2.3\<close> is not.
\<close>

theorem C9_reject_outside_ranges:
  assumes "githubIpRanges \<noteq> []"
  shows "(rejected in_range ip githubIpRanges \<longleftrightarrow> (\<forall>r \<in> set githubIpRanges. \<not> in_range ip r)) \<and>
         ((\<forall>r \<in> set githubIpRanges. \<not> in_range (source_address req) r) \<longrightarrow>
            routeHookPush in_range githubIpRanges dirname req =
              ([Log Warn (''Request from non-whitelisted ip: '' @ source_address req), Send []],
               None)) \<and>
         ((\<exists>r \<in> set githubIpRanges. in_range (source_address req) r) \<longrightarrow>
            routeHookPush in_range githubIpRanges dirname req = handle_push dirname req) \<and>
         rejected ipv4_in_range ''203.0.113.5'' [''10.0.0.0/8''] \<and>
         \<not> rejected ipv4_in_range ''10.1.2.3'' [''10.0.0.0/8'']"
proof -
  have r: "rejected in_range ip githubIpRanges \<longleftrightarrow> (\<forall>r \<in> set githubIpRanges. \<not> in_range ip r)"
    for ip
    using assms by (rule rejected_iff)
  have a: "(\<forall>r \<in> set githubIpRanges. \<not> in_range (source_address req) r) \<longrightarrow>
            routeHookPush in_range githubIpRanges dirname req =
              ([Log Warn (''Request from non-whitelisted ip: '' @ source_address req), Send []],
               None)"
    by (simp add: routeHookPush_def r Let_def)
  have b: "(\<exists>r \<in> set githubIpRanges. in_range (source_address req) r) \<longrightarrow>
            routeHookPush in_range githubIpRanges dirname req = handle_push dirname req"
    by (auto simp: routeHookPush_def r Let_def)
  have 1: "rejected ipv4_in_range ''203.0.113.5'' [''10.0.0.0/8'']"
    by (simp add: ipv4_in_range_def parse_ipv4_def)
  have 2: "\<not> rejected ipv4_in_range ''10.1.2.3'' [''10.0.0.0/8'']"
    by (simp add: ipv4_in_range_def parse_ipv4_def)
  show ?thesis
    by (intro conjI) (rule r a b 1 2)+
qed

theorem C9_reject_outside_ranges_witness:
  "[''10.0.0.0/8''] \<noteq> [] \<and>
   \<not> ipv4_in_range ''203.0.113.5'' ''10.0.0.0/8'' \<and>
   rejected ipv4_in_range ''203.0.113.5'' [''10.0.0.0/8''] \<and>
   routeHookPush ipv4_in_range [''10.0.0.0/8''] ''/srv/deploy''
       (push ''203.0.113.5'' ''app'' ''refs/heads/main'')
     = ([Log Warn ''Request from non-whitelisted ip: 203.0.113.5'', Send []], None) \<and>
   ipv4_in_range ''10.1.2.3'' ''10.0.0.0/8'' \<and>
   \<not> rejected ipv4_in_range ''10.1.2.3'' [''10.0.0.0/8''] \<and>
   routeHookPush ipv4_in_range [''10.0.0.0/8''] ''/srv/deploy''
       (push ''10.1.2.3'' ''app'' ''refs/heads/main'')
     = handle_push ''/srv/deploy'' (push ''10.1.2.3'' ''app'' ''refs/heads/main'')"
proof -
  let ?out = "push ''203.0.113.5'' ''app'' ''refs/heads/main''"
  let ?in = "push ''10.1.2.3'' ''app'' ''refs/heads/main''"
  have ne: "[''10.0.0.0/8''] \<noteq> []" by simp
  have o: "\<not> ipv4_in_range ''203.0.113.5'' ''10.0.0.0/8''"
    by (simp add: ipv4_in_range_def parse_ipv4_def)
  have i: "ipv4_in_range ''10.1.2.3'' ''10.0.0.0/8''"
    by (simp add: ipv4_in_range_def parse_ipv4_def)
  have ao: "source_address ?out = ''203.0.113.5''"
    by (simp add: push_def source_address_def)
  have ai: "source_address ?in = ''10.1.2.3''"
    by (simp add: push_def source_address_def)
  from C9_reject_outside_ranges [OF ne, of ipv4_in_range "''203.0.113.5''" ?out "''/srv/deploy''"] o
  have 1: "rejected ipv4_in_range ''203.0.113.5'' [''10.0.0.0/8'']"
    and 2: "routeHookPush ipv4_in_range [''10.0.0.0/8''] ''/srv/deploy'' ?out
              = ([Log Warn ''Request from non-whitelisted ip: 203.0.113.5'', Send []], None)"
    by (simp_all add: ao)
  from C9_reject_outside_ranges [OF ne, of ipv4_in_range "''10.1.2.3''" ?in "''/srv/deploy''"] i
  have 3: "\<not> rejected ipv4_in_range ''10.1.2.3'' [''10.0.0.0/8'']"
    and 4: "routeHookPush ipv4_in_range [''10.0.0.0/8''] ''/srv/deploy'' ?in
              = handle_push ''/srv/deploy'' ?in"
    by (simp_all add: ai)
  from ne o 1 2 i 3 4 show ?thesis by blast
qed

text \<open>
  Claim C9 as stated fails for the empty allow-list: no range contains the address
  \<^verbatim>\<open>203.0.113.5\<close>, yet it is not rejected, and the handler goes on to probe for the
  target.
\<close>

theorem C9_counterexample:
  "\<not> rejected ipv4_in_range ''203.0.113.5'' [] \<and>
   routeHookPush ipv4_in_range [] ''/srv/deploy'' (push ''203.0.113.5'' ''app'' ''refs/heads/main'')
     = ([Log Info ''Received push event'', Log Debug ''Deployer data'',
         FsExists ''/srv/deploy/../app-main/deploy.js''
           \<lparr>name = ''app-main'', path = ''/srv/deploy/../app-main'',
              repository = JStr ''app'', branch = JStr ''main''\<rparr>, Send []], None)"
  by (simp add: routeHookPush_def handle_push_def make_deployer_def push_def
        push_payload_def source_address_def slice_last_def Let_def)

text \<open>
  Claim C10. With the empty allow-list the loop of lines 134-145 has nothing to
  try: no address is rejected, and the handler does what lines 147-173 do.
\<close>

theorem C10_empty_allow_list:
  "\<not> rejected in_range ip [] \<and>
   routeHookPush in_range [] dirname req = handle_push dirname req"
  by (simp add: routeHookPush_def)

end
